theory Spec2Isabelle
  imports Main "HOL-Library.AList"
begin

section \<open>Strings\<close>

text \<open>
  Strings are lists of \<^typ>\<open>char\<close>: the model covers Python strings whose code points are
  below 256. Every fault the code can raise is a value of \<open>error\<close>; \<open>RecursionError\<close> is
  what Python raises for a recursion that never reaches its base case.
\<close>

datatype error = IndexError | ValueError | RecursionError | OSError | EmptyMatch

text \<open>\<^verbatim>\<open>s.split(sep)\<close> for a one-character separator.\<close>

fun split_on :: "char \<Rightarrow> string \<Rightarrow> string list" where
  "split_on sep [] = [[]]"
| "split_on sep (x # xs) =
     (if x = sep then [] # split_on sep xs
      else (case split_on sep xs of
              w # ws \<Rightarrow> (x # w) # ws
            | [] \<Rightarrow> [[x]]))"

text \<open>\<^verbatim>\<open>sep.join(xs)\<close>.\<close>

fun join_with :: "string \<Rightarrow> string list \<Rightarrow> string" where
  "join_with sep [] = []"
| "join_with sep [x] = x"
| "join_with sep (x # y # ys) = x @ sep @ join_with sep (y # ys)"

text \<open>
  \<^verbatim>\<open>str.lower\<close> on one code point below 256: the letters A to Z and the upper-case
  letters of Latin-1 (0xC0 to 0xDE, without the multiplication sign 0xD7) move by 32.
\<close>

definition lower_char :: "char \<Rightarrow> char" where
  "lower_char c =
     (let n = (of_char c :: nat)
      in if (65 \<le> n \<and> n \<le> 90) \<or> (192 \<le> n \<and> n \<le> 222 \<and> n \<noteq> 215)
         then char_of (n + 32) else c)"

definition lower :: "string \<Rightarrow> string" where
  "lower s = map lower_char s"

text \<open>\<^verbatim>\<open>s.rfind(c)\<close>: the index of the last occurrence, \<open>None\<close> for Python's -1.\<close>

fun rfind :: "char \<Rightarrow> string \<Rightarrow> nat option" where
  "rfind c [] = None"
| "rfind c (x # xs) =
     (case rfind c xs of
        Some i \<Rightarrow> Some (Suc i)
      | None \<Rightarrow> if x = c then Some 0 else None)"

section \<open>Regular expressions\<close>

text \<open>
  The three patterns of the program use literal characters, the classes \<^verbatim>\<open>.\<close>,
  \<^verbatim>\<open>\s\<close> and \<^verbatim>\<open>\S\<close>, the greedy quantifiers \<^verbatim>\<open>?\<close>, \<^verbatim>\<open>*\<close> and \<^verbatim>\<open>+\<close> on one
  character class, and capturing groups. A pattern is the list of its items, in the order
  of the source text. \<^verbatim>\<open>re.MULTILINE\<close> changes only \<^verbatim>\<open>^\<close> and \<^verbatim>\<open>$\<close>, which no pattern
  uses.
\<close>

datatype cls = Lit char | Dot | Space | NonSpace

datatype tok = One cls | Opt cls | Star cls | Plus cls | GOpen | GClose

text \<open>
  \<^verbatim>\<open>\s\<close> on a \<^verbatim>\<open>str\<close> pattern is \<^verbatim>\<open>str.isspace\<close>: below 256 these are the code
  points 9 to 13, 28 to 32, 0x85 and 0xA0. \<^verbatim>\<open>.\<close> is every character but the newline.
\<close>

definition is_space :: "char \<Rightarrow> bool" where
  "is_space c \<longleftrightarrow>
     c \<in> set [CHR 0x09, CHR 0x0A, CHR 0x0B, CHR 0x0C, CHR 0x0D, CHR 0x1C, CHR 0x1D,
              CHR 0x1E, CHR 0x1F, CHR 0x20, CHR 0x85, CHR 0xA0]"

fun cls_matches :: "cls \<Rightarrow> char \<Rightarrow> bool" where
  "cls_matches (Lit a) c \<longleftrightarrow> c = a"
| "cls_matches Dot c \<longleftrightarrow> c \<noteq> CHR 0x0A"
| "cls_matches Space c \<longleftrightarrow> is_space c"
| "cls_matches NonSpace c \<longleftrightarrow> \<not> is_space c"

text \<open>
  The backtracking matcher of \<^verbatim>\<open>re\<close>, anchored at the head of the string \<open>s\<close>, which
  starts at offset \<open>i\<close> of the text. A greedy quantifier first takes one more character and
  falls back to taking none when the rest of the pattern then fails. The offsets where
  groups open and close are collected in \<open>bs\<close>. The result is the offset where the match
  ends, with the group offsets of the successful path.
\<close>

fun re_match :: "tok list \<Rightarrow> string \<Rightarrow> nat \<Rightarrow> nat list \<Rightarrow> (nat \<times> nat list) option" where
  "re_match [] s i bs = Some (i, bs)"
| "re_match (GOpen # ts) s i bs = re_match ts s i (bs @ [i])"
| "re_match (GClose # ts) s i bs = re_match ts s i (bs @ [i])"
| "re_match (One c # ts) [] i bs = None"
| "re_match (One c # ts) (x # xs) i bs =
     (if cls_matches c x then re_match ts xs (Suc i) bs else None)"
| "re_match (Plus c # ts) [] i bs = None"
| "re_match (Plus c # ts) (x # xs) i bs =
     (if cls_matches c x then re_match (Star c # ts) xs (Suc i) bs else None)"
| "re_match (Opt c # ts) [] i bs = re_match ts [] i bs"
| "re_match (Opt c # ts) (x # xs) i bs =
     (if cls_matches c x
      then (case re_match ts xs (Suc i) bs of
              Some r \<Rightarrow> Some r
            | None \<Rightarrow> re_match ts (x # xs) i bs)
      else re_match ts (x # xs) i bs)"
| "re_match (Star c # ts) [] i bs = re_match ts [] i bs"
| "re_match (Star c # ts) (x # xs) i bs =
     (if cls_matches c x
      then (case re_match (Star c # ts) xs (Suc i) bs of
              Some r \<Rightarrow> Some r
            | None \<Rightarrow> re_match ts (x # xs) i bs)
      else re_match ts (x # xs) i bs)"

text \<open>A match object: \<^verbatim>\<open>m.start()\<close>, \<^verbatim>\<open>m.end()\<close> and the text of the groups 1, 2, ...\<close>

record match =
  m_start :: nat
  m_end :: nat
  m_groups :: "string list"

fun groups_of :: "string \<Rightarrow> nat list \<Rightarrow> string list" where
  "groups_of text (a # b # bs) = take (b - a) (drop a text) # groups_of text bs"
| "groups_of text bs = []"

text \<open>
  \<^verbatim>\<open>m[n]\<close> for a group number \<open>n\<close> from 1. The patterns fix the number of groups, so a
  number out of range does not occur; the model gives the empty string there.
\<close>

definition m_group :: "match \<Rightarrow> nat \<Rightarrow> string" where
  "m_group m n = (if 0 < n \<and> n \<le> length (m_groups m) then m_groups m ! (n - 1) else [])"

text \<open>\<^verbatim>\<open>regex.search(text)\<close>: the match at the leftmost offset where one exists.\<close>

fun re_search_from :: "tok list \<Rightarrow> string \<Rightarrow> string \<Rightarrow> nat \<Rightarrow> match option" where
  "re_search_from regex text s i =
     (case re_match regex s i [] of
        Some (e, bs) \<Rightarrow> Some \<lparr>m_start = i, m_end = e, m_groups = groups_of text bs\<rparr>
      | None \<Rightarrow> (case s of [] \<Rightarrow> None | x # xs \<Rightarrow> re_search_from regex text xs (Suc i)))"

declare re_search_from.simps [simp del]

definition re_search :: "tok list \<Rightarrow> string \<Rightarrow> match option" where
  "re_search regex text = re_search_from regex text text 0"

text \<open>
  \<^verbatim>\<open>re.sub(regex, replacer, text)\<close>: the matches are found from left to right, each search
  starting where the previous match ended. The rule of \<^verbatim>\<open>re.sub\<close> for a match of length
  zero is not modelled: the only pattern passed to it cannot match the empty string, and
  the model stops with \<open>EmptyMatch\<close> there (a match ends inside the text, so the second
  test of that branch never holds). An exception of the replacer ends the substitution.
\<close>

function re_sub :: "tok list \<Rightarrow> (match \<Rightarrow> error + string) \<Rightarrow> string \<Rightarrow> error + string" where
  "re_sub regex replacer text =
     (case re_search regex text of
        None \<Rightarrow> Inr text
      | Some m \<Rightarrow>
          if m_end m \<le> m_start m \<or> length text < m_end m then Inl EmptyMatch
          else (case replacer m of
                  Inl e \<Rightarrow> Inl e
                | Inr r \<Rightarrow>
                    (case re_sub regex replacer (drop (m_end m) text) of
                       Inl e \<Rightarrow> Inl e
                     | Inr rest \<Rightarrow> Inr (take (m_start m) text @ r @ rest))))"
  by pat_completeness auto
termination
  by (relation "measure (\<lambda>(regex, replacer, text). length text)") auto

declare re_sub.simps [simp del]

text \<open>
  \<^verbatim>\<open>LINK_REGEX\<close> is \<^verbatim>\<open>\[\[\s*(?P<url>.*\S)\s*\|\s*(?P<text>.*\S)\s*\]\]\<close>,
  \<^verbatim>\<open>INTERNAL_LINK_REGEX\<close> is \<^verbatim>\<open>\[\[\s*(?P<slug>.*\S)\s*\]\]\<close> and
  \<^verbatim>\<open>HEADER_REGEX\<close> is \<^verbatim>\<open>(=+) ?(.*) ?=+\<close>.
\<close>

definition LINK_REGEX :: "tok list" where
  "LINK_REGEX =
     [One (Lit CHR ''[''), One (Lit CHR ''[''), Star Space,
      GOpen, Star Dot, One NonSpace, GClose,
      Star Space, One (Lit CHR ''|''), Star Space,
      GOpen, Star Dot, One NonSpace, GClose,
      Star Space, One (Lit CHR '']''), One (Lit CHR '']'')]"

definition INTERNAL_LINK_REGEX :: "tok list" where
  "INTERNAL_LINK_REGEX =
     [One (Lit CHR ''[''), One (Lit CHR ''[''), Star Space,
      GOpen, Star Dot, One NonSpace, GClose,
      Star Space, One (Lit CHR '']''), One (Lit CHR '']'')]"

definition HEADER_REGEX :: "tok list" where
  "HEADER_REGEX =
     [GOpen, Plus (Lit CHR ''=''), GClose, Opt (Lit CHR '' ''),
      GOpen, Star Dot, GClose, Opt (Lit CHR '' ''), Plus (Lit CHR ''='')]"

section \<open>Paths and the file system\<close>

text \<open>
  A \<^verbatim>\<open>pathlib.Path\<close> of the POSIX flavour: its root (empty for a relative path,
  \<^verbatim>\<open>/\<close> or \<^verbatim>\<open>//\<close> for an absolute one) and its segments after the root.
\<close>

record path =
  p_root :: string
  p_parts :: "string list"

text \<open>\<^verbatim>\<open>splitroot\<close> of the POSIX flavour: exactly two leading slashes are kept as a root.\<close>

definition splitroot :: "string \<Rightarrow> string \<times> string" where
  "splitroot part =
     (if part \<noteq> [] \<and> hd part = CHR ''/''
      then (let stripped_part = dropWhile (\<lambda>c. c = CHR ''/'') part
            in if length part - length stripped_part = 2 then (''//'', stripped_part)
               else (''/'', stripped_part))
      else ([], part))"

text \<open>
  \<^verbatim>\<open>parse_parts\<close>: the arguments are read from the last to the first, up to the first one
  that has a root; empty segments and \<^verbatim>\<open>.\<close> segments are dropped. The argument of
  \<open>parse_parts_rev\<close> is the reversed list of arguments.
\<close>

fun parse_parts_rev :: "string list \<Rightarrow> path" where
  "parse_parts_rev [] = \<lparr>p_root = [], p_parts = []\<rparr>"
| "parse_parts_rev (part # earlier) =
     (if part = [] then parse_parts_rev earlier
      else (let (root, rel) = splitroot part;
                parsed = filter (\<lambda>x. x \<noteq> [] \<and> x \<noteq> ''.'') (split_on CHR ''/'' rel)
            in if root \<noteq> [] then \<lparr>p_root = root, p_parts = parsed\<rparr>
               else (let p = parse_parts_rev earlier
                     in \<lparr>p_root = p_root p, p_parts = p_parts p @ parsed\<rparr>)))"

text \<open>\<^verbatim>\<open>Path(*args)\<close>.\<close>

definition Path :: "string list \<Rightarrow> path" where
  "Path args = parse_parts_rev (rev args)"

text \<open>\<^verbatim>\<open>str(p)\<close>.\<close>

definition str_path :: "path \<Rightarrow> string" where
  "str_path p =
     (if p_root p = [] \<and> p_parts p = [] then ''.''
      else p_root p @ join_with ''/'' (p_parts p))"

text \<open>\<^verbatim>\<open>p.parent\<close>: a path without segments is its own parent.\<close>

definition parent :: "path \<Rightarrow> path" where
  "parent p = (if p_parts p = [] then p else p\<lparr>p_parts := butlast (p_parts p)\<rparr>)"

text \<open>
  \<^verbatim>\<open>p.relative_to(other)\<close>: \<^verbatim>\<open>ValueError\<close> unless both have the same root and the
  segments of \<open>other\<close> are the first segments of \<open>p\<close>.
\<close>

definition relative_to :: "path \<Rightarrow> path \<Rightarrow> error + path" where
  "relative_to p other =
     (if p_root p = p_root other \<and>
         take (length (p_parts other)) (p_parts p) = p_parts other
      then Inr \<lparr>p_root = [], p_parts = drop (length (p_parts other)) (p_parts p)\<rparr>
      else Inl ValueError)"

text \<open>\<^verbatim>\<open>p / name\<close> for a name of one segment.\<close>

definition joinname :: "path \<Rightarrow> string \<Rightarrow> path" where
  "joinname p name = p\<lparr>p_parts := p_parts p @ [name]\<rparr>"

text \<open>\<^verbatim>\<open>p / q\<close>: a relative \<open>q\<close> continues \<open>p\<close>, an absolute \<open>q\<close> replaces it.\<close>

definition joinpath :: "path \<Rightarrow> path \<Rightarrow> path" where
  "joinpath p q = (if p_root q \<noteq> [] then q else p\<lparr>p_parts := p_parts p @ p_parts q\<rparr>)"

text \<open>\<^verbatim>\<open>p.suffix\<close> read from the last segment, and \<^verbatim>\<open>p.with_suffix(suffix)\<close>.\<close>

definition suffix_of :: "string \<Rightarrow> string" where
  "suffix_of name =
     (case rfind CHR ''.'' name of
        None \<Rightarrow> []
      | Some i \<Rightarrow> if 0 < i \<and> i < length name - 1 then drop i name else [])"

definition with_suffix :: "path \<Rightarrow> string \<Rightarrow> error + path" where
  "with_suffix p suffix =
     (if CHR ''/'' \<in> set suffix \<or> (suffix \<noteq> [] \<and> hd suffix \<noteq> CHR ''.'') \<or> suffix = ''.''
      then Inl ValueError
      else if p_parts p = [] then Inl ValueError
      else (let name = last (p_parts p);
                old_suffix = suffix_of name;
                name' = (if old_suffix = [] then name @ suffix
                         else take (length name - length old_suffix) name @ suffix)
            in Inr (p\<lparr>p_parts := butlast (p_parts p) @ [name']\<rparr>)))"

text \<open>
  The file system, as far as the program looks at it: the directories and the files that
  exist, by their paths as the program writes them. A path without segments is the
  working directory or the root directory, which exist. A path is looked up by its
  segments as written: the resolution of a \<^verbatim>\<open>..\<close> segment by the operating system, and
  the \<^verbatim>\<open>OSError\<close> it raises for a name too long to look up, are outside the model.
\<close>

record filesystem =
  fs_dirs :: "path set"
  fs_files :: "path set"

definition is_dir :: "filesystem \<Rightarrow> path \<Rightarrow> bool" where
  "is_dir fs p \<longleftrightarrow> p_parts p = [] \<or> p \<in> fs_dirs fs"

definition exists_path :: "filesystem \<Rightarrow> path \<Rightarrow> bool" where
  "exists_path fs p \<longleftrightarrow> is_dir fs p \<or> p \<in> fs_files fs"

text \<open>
  \<^verbatim>\<open>p.mkdir(parents=True, exist_ok=True)\<close>: an existing directory is left alone, a file
  in the way is an \<^verbatim>\<open>OSError\<close>, a missing parent is created first.
\<close>

function mkdir_parents :: "filesystem \<Rightarrow> path \<Rightarrow> error + filesystem" where
  "mkdir_parents fs p =
     (if is_dir fs p then Inr fs
      else if p \<in> fs_files fs then Inl OSError
      else if exists_path fs (parent p)
      then (if is_dir fs (parent p) then Inr (fs\<lparr>fs_dirs := insert p (fs_dirs fs)\<rparr>)
            else Inl OSError)
      else (case mkdir_parents fs (parent p) of
              Inl e \<Rightarrow> Inl e
            | Inr fs' \<Rightarrow> Inr (fs'\<lparr>fs_dirs := insert p (fs_dirs fs')\<rparr>)))"
  by pat_completeness auto
termination
  by (relation "measure (\<lambda>(fs, p). length (p_parts p))")
     (auto simp: is_dir_def parent_def)

declare mkdir_parents.simps [simp del]

section \<open>Utilities\<close>

definition EXPORT_DIR :: string where
  "EXPORT_DIR = ''./exported''"

text \<open>
  \<^verbatim>\<open>custom_re_sub\<close>: search, splice the replacement in, search the new text again. The
  loop ends when the pattern is no longer found; \<open>None\<close> is a loop that never ends. The
  slice \<^verbatim>\<open>text[m.end() + 1:]\<close> is \<open>drop (m_end m + 1) text\<close>.
\<close>

partial_function (option) custom_re_sub ::
  "tok list \<Rightarrow> (match \<Rightarrow> error + string) \<Rightarrow> string \<Rightarrow> (error + string) option" where
  "custom_re_sub regex replacer text =
     (case re_search regex text of
        None \<Rightarrow> Some (Inr text)
      | Some m \<Rightarrow>
          (case replacer m of
             Inl e \<Rightarrow> Some (Inl e)
           | Inr r \<Rightarrow>
               custom_re_sub regex replacer
                 (take (m_start m) text @ r @ drop (m_end m + 1) text)))"

declare custom_re_sub.simps [code]

text \<open>
  \<^verbatim>\<open>regressive_relative_to\<close>. When \<open>from_p\<close> has no segment left it is its own parent and
  the recursion of the source never ends: Python stops it with \<^verbatim>\<open>RecursionError\<close>.
  \<^verbatim>\<open>Path('..', str(r))\<close> puts the segment \<^verbatim>\<open>..\<close> before the segments of \<open>r\<close>.
\<close>

function regressive_relative_to :: "path \<Rightarrow> path \<Rightarrow> error + path" where
  "regressive_relative_to from_p to_p =
     (case relative_to to_p from_p of
        Inr result \<Rightarrow> Inr result
      | Inl e \<Rightarrow>
          if p_parts from_p = [] then Inl RecursionError
          else (case regressive_relative_to (parent from_p) to_p of
                  Inl e' \<Rightarrow> Inl e'
                | Inr r \<Rightarrow> Inr \<lparr>p_root = [], p_parts = ''..'' # p_parts r\<rparr>))"
  by pat_completeness auto
termination
  by (relation "measure (\<lambda>(from_p, to_p). length (p_parts from_p))")
     (auto simp: parent_def)

declare regressive_relative_to.simps [simp del]

text \<open>
  The number of recursive calls \<^verbatim>\<open>regressive_relative_to\<close> makes before it returns,
  along the same recursion; \<open>None\<close> when it never reaches its base case.
\<close>

function climbs :: "path \<Rightarrow> path \<Rightarrow> nat option" where
  "climbs from_p to_p =
     (case relative_to to_p from_p of
        Inr result \<Rightarrow> Some 0
      | Inl e \<Rightarrow>
          if p_parts from_p = [] then None
          else map_option Suc (climbs (parent from_p) to_p))"
  by pat_completeness auto
termination
  by (relation "measure (\<lambda>(from_p, to_p). length (p_parts from_p))")
     (auto simp: parent_def)

declare climbs.simps [simp del]

definition render_link :: "path \<Rightarrow> path \<Rightarrow> string \<Rightarrow> error + string" where
  "render_link from_p to_p text =
     (case regressive_relative_to from_p to_p of
        Inl e \<Rightarrow> Inl e
      | Inr r \<Rightarrow> Inr (''['' @ text @ '']('' @ str_path r @ '')''))"

text \<open>\<^verbatim>\<open>format_slug\<close>: \<^verbatim>\<open>url[-1]\<close> on the empty string is an \<^verbatim>\<open>IndexError\<close>.\<close>

definition format_slug :: "string \<Rightarrow> error + string" where
  "format_slug url =
     (if url = [] then Inl IndexError
      else Inr (lower (if last url \<noteq> CHR ''/'' then url @ ''/'' else url)))"

text \<open>
  Normalising a path by cancelling each \<^verbatim>\<open>..\<close> segment against the segment before it,
  as \<^verbatim>\<open>os.path.normpath\<close> does: \<open>acc\<close> is the stack of the segments kept so far, and a
  \<^verbatim>\<open>..\<close> that has nothing to cancel is dropped at the root and kept in a relative path.
\<close>

fun normalize_parts :: "bool \<Rightarrow> string list \<Rightarrow> string list \<Rightarrow> string list" where
  "normalize_parts is_abs acc [] = rev acc"
| "normalize_parts is_abs acc (seg # segs) =
     (if seg \<noteq> ''..'' \<or> (\<not> is_abs \<and> acc = []) \<or> (acc \<noteq> [] \<and> hd acc = ''..'')
      then normalize_parts is_abs (seg # acc) segs
      else normalize_parts is_abs (tl acc) segs)"

definition normalize_path :: "path \<Rightarrow> path" where
  "normalize_path p = p\<lparr>p_parts := normalize_parts (p_root p \<noteq> []) [] (p_parts p)\<rparr>"

text \<open>
  \<^verbatim>\<open>p.is_relative_to(base)\<close>: whether \<^verbatim>\<open>p.relative_to(base)\<close> returns. A path lies
  under \<open>base\<close> when it is relative to it and has no \<^verbatim>\<open>..\<close> segment that could lead
  out of it again.
\<close>

definition is_relative_to :: "path \<Rightarrow> path \<Rightarrow> bool" where
  "is_relative_to p base \<longleftrightarrow> (case relative_to p base of Inl e \<Rightarrow> False | Inr r \<Rightarrow> True)"

definition is_under :: "path \<Rightarrow> path \<Rightarrow> bool" where
  "is_under base p \<longleftrightarrow> is_relative_to p base \<and> ''..'' \<notin> set (p_parts p)"

section \<open>Documents\<close>

text \<open>
  The fields of class \<^verbatim>\<open>Document\<close>. A row of the table carries \<^verbatim>\<open>id\<close> and
  \<^verbatim>\<open>version\<close> as integers and \<^verbatim>\<open>documentPHID\<close> as text.
\<close>

record Document =
  doc_id :: int
  version :: int
  slug :: string
  title :: string
  content :: string
  documentPHID :: string
  path :: path

type_synonym row = "int \<times> int \<times> string \<times> string \<times> string \<times> string"

text \<open>
  \<^verbatim>\<open>Document.__init__\<close>: the provisional path, and the directory above it created when
  it does not exist.
\<close>

definition Document_init :: "filesystem \<Rightarrow> row \<Rightarrow> error + (Document \<times> filesystem)" where
  "Document_init fs r =
     (case r of (i, v, sl, ti, co, ph) \<Rightarrow>
        (let pth = (if sl = ''/'' then Path [EXPORT_DIR] else Path [EXPORT_DIR, sl]);
             d = \<lparr>doc_id = i, version = v, slug = sl, title = ti, content = co,
                  documentPHID = ph, path = pth\<rparr>
         in if \<not> exists_path fs (parent pth)
            then (case mkdir_parents fs (parent pth) of
                    Inl e \<Rightarrow> Inl e
                  | Inr fs' \<Rightarrow> Inr (d, fs'))
            else Inr (d, fs)))"

text \<open>\<^verbatim>\<open>Document.correct_path\<close>.\<close>

definition correct_path :: "filesystem \<Rightarrow> Document \<Rightarrow> error + Document" where
  "correct_path fs self =
     (if exists_path fs (path self) \<and> is_dir fs (path self)
      then Inr (self\<lparr>path := joinname (path self) ''README.md''\<rparr>)
      else (case with_suffix (path self) ''.md'' of
              Inl e \<Rightarrow> Inl e
            | Inr p \<Rightarrow> Inr (self\<lparr>path := p\<rparr>)))"

text \<open>
  The two replacers of \<^verbatim>\<open>Document.clean_links\<close>. The dictionary \<open>docs_by_slug\<close> is an
  association list from keys to documents.
\<close>

definition replace_a_raw_link ::
  "Document \<Rightarrow> (string \<times> Document) list \<Rightarrow> match \<Rightarrow> error + string" where
  "replace_a_raw_link self docs_by_slug m =
     (let url = m_group m 1; text = m_group m 2
      in case format_slug url of
           Inl e \<Rightarrow> Inl e
         | Inr slug' \<Rightarrow>
             (case map_of docs_by_slug slug' of
                Some d \<Rightarrow> render_link (parent (path self)) (path d) text
              | None \<Rightarrow> Inr (''['' @ text @ '']('' @ url @ '')'')))"

definition replace_a_link_by_slug ::
  "Document \<Rightarrow> (string \<times> Document) list \<Rightarrow> match \<Rightarrow> error + string" where
  "replace_a_link_by_slug self docs_by_slug m =
     (let url = m_group m 1
      in case format_slug url of
           Inl e \<Rightarrow> Inl e
         | Inr slug' \<Rightarrow>
             (case map_of docs_by_slug slug' of
                Some d \<Rightarrow> render_link (parent (path self)) (path d) (title d)
              | None \<Rightarrow> Inr (''['' @ slug' @ '']('' @ slug' @ '')'')))"

text \<open>
  \<^verbatim>\<open>Document.clean_links\<close> and \<^verbatim>\<open>Document.clean_headers\<close> on the content, and
  \<^verbatim>\<open>Document.clean_content\<close>. \<open>None\<close> when a rewriting loop never ends.
\<close>

definition clean_links ::
  "Document \<Rightarrow> (string \<times> Document) list \<Rightarrow> (error + Document) option" where
  "clean_links self docs_by_slug =
     (case re_sub LINK_REGEX (replace_a_raw_link self docs_by_slug) (content self) of
        Inl e \<Rightarrow> Some (Inl e)
      | Inr c \<Rightarrow>
          (case custom_re_sub INTERNAL_LINK_REGEX (replace_a_link_by_slug self docs_by_slug) c of
             None \<Rightarrow> None
           | Some (Inl e) \<Rightarrow> Some (Inl e)
           | Some (Inr c') \<Rightarrow> Some (Inr (self\<lparr>content := c'\<rparr>))))"

definition replace_a_header :: "match \<Rightarrow> error + string" where
  "replace_a_header m =
     Inr (replicate (length (m_group m 1)) CHR ''#'' @ '' '' @ m_group m 2 @ [CHR 0x0A])"

definition clean_headers :: "Document \<Rightarrow> (error + Document) option" where
  "clean_headers self =
     (case custom_re_sub HEADER_REGEX replace_a_header (content self) of
        None \<Rightarrow> None
      | Some (Inl e) \<Rightarrow> Some (Inl e)
      | Some (Inr c') \<Rightarrow> Some (Inr (self\<lparr>content := c'\<rparr>)))"

definition clean_content ::
  "Document \<Rightarrow> (string \<times> Document) list \<Rightarrow> (error + Document) option" where
  "clean_content self docs_by_slug =
     (case clean_links
             (self\<lparr>content := ''# '' @ title self @ [CHR 0x0A, CHR 0x0A] @ content self\<rparr>)
             docs_by_slug of
        None \<Rightarrow> None
      | Some (Inl e) \<Rightarrow> Some (Inl e)
      | Some (Inr self') \<Rightarrow> clean_headers self')"

section \<open>Access and filter functions\<close>

text \<open>
  \<^verbatim>\<open>select_max_version_of_documents\<close>: the dictionary \<^verbatim>\<open>max_versions\<close> is an
  association list in insertion order (a Python dict keeps the position of a key whose
  value is replaced, which is what \<^const>\<open>AList.update\<close> does); the result is the list of
  its values.
\<close>

fun select_max_version_loop ::
  "(string \<times> Document) list \<Rightarrow> Document list \<Rightarrow> (string \<times> Document) list" where
  "select_max_version_loop max_versions [] = max_versions"
| "select_max_version_loop max_versions (doc # docs) =
     select_max_version_loop
       (case map_of max_versions (documentPHID doc) of
          Some contestant \<Rightarrow>
            if version contestant < version doc
            then AList.update (documentPHID doc) doc max_versions
            else max_versions
        | None \<Rightarrow> AList.update (documentPHID doc) doc max_versions)
       docs"

definition select_max_version_of_documents :: "Document list \<Rightarrow> Document list" where
  "select_max_version_of_documents docs = map snd (select_max_version_loop [] docs)"

text \<open>\<^verbatim>\<open>fetch_documents\<close>: one \<^verbatim>\<open>Document\<close> is constructed per row, in the order of the rows.\<close>

fun fetch_documents :: "filesystem \<Rightarrow> row list \<Rightarrow> error + (Document list \<times> filesystem)" where
  "fetch_documents fs [] = Inr ([], fs)"
| "fetch_documents fs (r # rows) =
     (case Document_init fs r of
        Inl e \<Rightarrow> Inl e
      | Inr (d, fs') \<Rightarrow>
          (case fetch_documents fs' rows of
             Inl e \<Rightarrow> Inl e
           | Inr (ds, fs'') \<Rightarrow> Inr (d # ds, fs'')))"

text \<open>\<^verbatim>\<open>get_documents_by_slug\<close>: the key is the field \<^verbatim>\<open>slug\<close> of the document.\<close>

fun get_documents_by_slug_loop ::
  "(string \<times> Document) list \<Rightarrow> Document list \<Rightarrow> (string \<times> Document) list" where
  "get_documents_by_slug_loop result [] = result"
| "get_documents_by_slug_loop result (d # docs) =
     get_documents_by_slug_loop (AList.update (slug d) d result) docs"

definition get_documents_by_slug :: "Document list \<Rightarrow> (string \<times> Document) list" where
  "get_documents_by_slug docs = get_documents_by_slug_loop [] docs"

section \<open>Main\<close>

text \<open>
  The loops of \<^verbatim>\<open>main\<close> over the selected documents. The dictionary holds the same
  objects as the list \<^verbatim>\<open>filtered_docs\<close>, so a link target read through it during
  \<^verbatim>\<open>clean_content\<close> has the path that \<^verbatim>\<open>correct_path\<close> gave it: the index of the model
  is built over the documents after \<^verbatim>\<open>correct_path\<close>, which leaves the keys as they are.
  \<open>main_paths\<close> is \<^verbatim>\<open>main\<close> up to the end of the \<^verbatim>\<open>correct_path\<close> loop, \<open>main_contents\<close>
  goes on to the end of the \<^verbatim>\<open>clean_content\<close> loop; the database and the final
  \<^verbatim>\<open>save\<close> are outside the model.
\<close>

fun correct_paths :: "filesystem \<Rightarrow> Document list \<Rightarrow> error + Document list" where
  "correct_paths fs [] = Inr []"
| "correct_paths fs (d # ds) =
     (case correct_path fs d of
        Inl e \<Rightarrow> Inl e
      | Inr d' \<Rightarrow> (case correct_paths fs ds of Inl e \<Rightarrow> Inl e | Inr ds' \<Rightarrow> Inr (d' # ds')))"

fun clean_contents ::
  "(string \<times> Document) list \<Rightarrow> Document list \<Rightarrow> (error + Document list) option" where
  "clean_contents docs_by_slug [] = Some (Inr [])"
| "clean_contents docs_by_slug (d # ds) =
     (case clean_content d docs_by_slug of
        None \<Rightarrow> None
      | Some (Inl e) \<Rightarrow> Some (Inl e)
      | Some (Inr d') \<Rightarrow>
          (case clean_contents docs_by_slug ds of
             None \<Rightarrow> None
           | Some (Inl e) \<Rightarrow> Some (Inl e)
           | Some (Inr ds') \<Rightarrow> Some (Inr (d' # ds'))))"

definition main_paths :: "filesystem \<Rightarrow> row list \<Rightarrow> error + Document list" where
  "main_paths fs rows =
     (case fetch_documents fs rows of
        Inl e \<Rightarrow> Inl e
      | Inr (all_docs, fs') \<Rightarrow> correct_paths fs' (select_max_version_of_documents all_docs))"

definition main_contents :: "filesystem \<Rightarrow> row list \<Rightarrow> (error + Document list) option" where
  "main_contents fs rows =
     (case main_paths fs rows of
        Inl e \<Rightarrow> Some (Inl e)
      | Inr filtered_docs \<Rightarrow> clean_contents (get_documents_by_slug filtered_docs) filtered_docs)"



section \<open>Properties of version selection\<close>

text \<open>The value stored under one key, as a function of the records carrying that key.\<close>

fun best_seen :: "Document option \<Rightarrow> Document list \<Rightarrow> Document option" where
  "best_seen acc [] = acc"
| "best_seen acc (doc # docs) =
     best_seen (case acc of
                  Some contestant \<Rightarrow> if version contestant < version doc then Some doc else acc
                | None \<Rightarrow> Some doc) docs"

lemma map_of_select_loop:
  "map_of (select_max_version_loop mv docs) k =
     best_seen (map_of mv k) (filter (\<lambda>d. documentPHID d = k) docs)"
proof (induction docs arbitrary: mv)
  case Nil
  show ?case by simp
next
  case (Cons doc docs)
  show ?case
    by (simp add: Cons.IH update_conv' split: option.split)
qed

lemma distinct_select_loop:
  "distinct (map fst mv) \<Longrightarrow> distinct (map fst (select_max_version_loop mv docs))"
  by (induction docs arbitrary: mv) (simp_all add: distinct_update split: option.split)

lemma keys_select_loop:
  "fst ` set (select_max_version_loop mv docs) = fst ` set mv \<union> documentPHID ` set docs"
proof (induction docs arbitrary: mv)
  case Nil
  show ?case by simp
next
  case (Cons doc docs)
  have "map_of mv (documentPHID doc) \<noteq> None \<Longrightarrow> documentPHID doc \<in> fst ` set mv"
    by (metis map_of_eq_None_iff)
  then show ?case
    by (auto simp add: Cons.IH dom_update split: option.split)
qed

lemma best_seen_Some:
  "best_seen (Some c) docs = Some d \<Longrightarrow>
     d \<in> set (c # docs) \<and> (\<forall>x \<in> set (c # docs). version x \<le> version d) \<and>
     find (\<lambda>x. version x = version d) (c # docs) = Some d"
proof (induction docs arbitrary: c)
  case Nil
  then show ?case by simp
next
  case (Cons x xs)
  show ?case
  proof (cases "version c < version x")
    case True
    with Cons.prems have "best_seen (Some x) xs = Some d" by simp
    from Cons.IH [OF this] True show ?thesis by auto
  next
    case False
    with Cons.prems have "best_seen (Some c) xs = Some d" by simp
    from Cons.IH [OF this] False show ?thesis by (auto split: if_splits)
  qed
qed

lemma best_seen_None:
  assumes "best_seen None docs = Some d"
  shows "d \<in> set docs \<and> (\<forall>x \<in> set docs. version x \<le> version d) \<and>
     find (\<lambda>x. version x = version d) docs = Some d"
proof (cases docs)
  case Nil
  with assms show ?thesis by simp
next
  case (Cons c xs)
  with assms have "best_seen (Some c) xs = Some d" by simp
  from best_seen_Some [OF this] Cons show ?thesis by simp
qed

lemma best_seen_None_iff: "best_seen None docs = None \<longleftrightarrow> docs = []"
proof -
  have "best_seen (Some c) xs \<noteq> None" for c xs
    by (induction xs arbitrary: c) simp_all
  then show ?thesis by (cases docs) simp_all
qed

lemma find_filter_conj:
  "find Q (filter P xs) = find (\<lambda>x. P x \<and> Q x) xs"
  by (induction xs) simp_all

lemma select_entry:
  assumes "(k, d) \<in> set (select_max_version_loop [] docs)"
  shows "documentPHID d = k \<and> d \<in> set docs \<and>
         (\<forall>x \<in> set docs. documentPHID x = k \<longrightarrow> version x \<le> version d) \<and>
         find (\<lambda>x. documentPHID x = k \<and> version x = version d) docs = Some d"
proof -
  have "distinct (map fst (select_max_version_loop [] docs))"
    by (rule distinct_select_loop) simp
  with assms have "map_of (select_max_version_loop [] docs) k = Some d"
    by simp
  then have "best_seen None (filter (\<lambda>x. documentPHID x = k) docs) = Some d"
    by (simp add: map_of_select_loop)
  from best_seen_None [OF this] show ?thesis
    by (auto simp add: find_filter_conj)
qed

lemma select_keys_are_phids:
  "map documentPHID (select_max_version_of_documents docs) =
     map fst (select_max_version_loop [] docs)"
  unfolding select_max_version_of_documents_def map_map
  by (rule map_cong [OF refl]) (use select_entry in \<open>auto simp: prod_eq_iff\<close>)

text \<open>
  C1. Version Selection returns exactly one Document per distinct \<^verbatim>\<open>documentPHID\<close> of
  the input (the identifiers of the output are pairwise distinct and are exactly those of
  the input); each returned Document is an input record whose version is the maximum over
  the input records with its \<^verbatim>\<open>documentPHID\<close>; among the records that tie on that
  maximum, the survivor is the first one in input order.
\<close>

theorem select_max_version_one_per_phid_max_first:
  "distinct (map documentPHID (select_max_version_of_documents docs)) \<and>
   set (map documentPHID (select_max_version_of_documents docs)) = documentPHID ` set docs \<and>
   (\<forall>d \<in> set (select_max_version_of_documents docs).
      d \<in> set docs \<and>
      version d = Max (version ` {x \<in> set docs. documentPHID x = documentPHID d}) \<and>
      find (\<lambda>x. documentPHID x = documentPHID d \<and>
                 version x = Max (version ` {y \<in> set docs. documentPHID y = documentPHID d}))
           docs = Some d)"
proof (intro conjI ballI)
  show "distinct (map documentPHID (select_max_version_of_documents docs))"
    by (simp add: select_keys_are_phids distinct_select_loop)
  show "set (map documentPHID (select_max_version_of_documents docs)) = documentPHID ` set docs"
    by (simp add: select_keys_are_phids keys_select_loop)
next
  fix d
  assume "d \<in> set (select_max_version_of_documents docs)"
  then obtain k where "(k, d) \<in> set (select_max_version_loop [] docs)"
    by (auto simp: select_max_version_of_documents_def)
  from select_entry [OF this]
  have k: "documentPHID d = k" and mem: "d \<in> set docs"
    and le: "\<forall>x \<in> set docs. documentPHID x = k \<longrightarrow> version x \<le> version d"
    and fnd: "find (\<lambda>x. documentPHID x = k \<and> version x = version d) docs = Some d"
    by simp_all
  let ?S = "version ` {x \<in> set docs. documentPHID x = documentPHID d}"
  have "finite ?S" by simp
  moreover have "version d \<in> ?S" using mem by auto
  moreover have "\<forall>v \<in> ?S. v \<le> version d" using le k by auto
  ultimately have mx: "Max ?S = version d"
    by (meson Max_eqI)
  show "d \<in> set docs" by (rule mem)
  show "version d = Max ?S" by (simp add: mx)
  show "find (\<lambda>x. documentPHID x = documentPHID d \<and> version x = Max ?S) docs = Some d"
    unfolding mx using fnd k by simp
qed

theorem select_max_version_witness:
  "\<lparr>doc_id = 2, version = 3, slug = ''a/'', title = ''A'', content = ''two'',
     documentPHID = ''PHID-A'', path = \<lparr>p_root = [], p_parts = [''exported'', ''a'']\<rparr>\<rparr>
   \<in> set (select_max_version_of_documents
       [\<lparr>doc_id = 1, version = 1, slug = ''a/'', title = ''A'', content = ''one'',
          documentPHID = ''PHID-A'', path = \<lparr>p_root = [], p_parts = [''exported'', ''a'']\<rparr>\<rparr>,
        \<lparr>doc_id = 2, version = 3, slug = ''a/'', title = ''A'', content = ''two'',
          documentPHID = ''PHID-A'', path = \<lparr>p_root = [], p_parts = [''exported'', ''a'']\<rparr>\<rparr>,
        \<lparr>doc_id = 3, version = 3, slug = ''a/'', title = ''A'', content = ''three'',
          documentPHID = ''PHID-A'', path = \<lparr>p_root = [], p_parts = [''exported'', ''a'']\<rparr>\<rparr>,
        \<lparr>doc_id = 4, version = 2, slug = ''b/'', title = ''B'', content = ''four'',
          documentPHID = ''PHID-B'', path = \<lparr>p_root = [], p_parts = [''exported'', ''b'']\<rparr>\<rparr>]) \<and>
   version \<lparr>doc_id = 2, version = 3, slug = ''a/'', title = ''A'', content = ''two'',
     documentPHID = ''PHID-A'', path = \<lparr>p_root = [], p_parts = [''exported'', ''a'']\<rparr>\<rparr>
   = Max (version ` {x \<in> set
       [\<lparr>doc_id = 1, version = 1, slug = ''a/'', title = ''A'', content = ''one'',
          documentPHID = ''PHID-A'', path = \<lparr>p_root = [], p_parts = [''exported'', ''a'']\<rparr>\<rparr>,
        \<lparr>doc_id = 2, version = 3, slug = ''a/'', title = ''A'', content = ''two'',
          documentPHID = ''PHID-A'', path = \<lparr>p_root = [], p_parts = [''exported'', ''a'']\<rparr>\<rparr>,
        \<lparr>doc_id = 3, version = 3, slug = ''a/'', title = ''A'', content = ''three'',
          documentPHID = ''PHID-A'', path = \<lparr>p_root = [], p_parts = [''exported'', ''a'']\<rparr>\<rparr>,
        \<lparr>doc_id = 4, version = 2, slug = ''b/'', title = ''B'', content = ''four'',
          documentPHID = ''PHID-B'', path = \<lparr>p_root = [], p_parts = [''exported'', ''b'']\<rparr>\<rparr>].
       documentPHID x = ''PHID-A''})"
  (is "?d \<in> set (select_max_version_of_documents ?docs) \<and> _")
proof -
  have mem: "?d \<in> set (select_max_version_of_documents ?docs)"
    by (simp add: select_max_version_of_documents_def)
  from select_max_version_one_per_phid_max_first [of ?docs] mem
  have "version ?d = Max (version ` {x \<in> set ?docs. documentPHID x = documentPHID ?d})"
    by blast
  with mem show ?thesis by simp
qed

section \<open>Properties of the relative link resolver\<close>

lemma is_relative_to_iff:
  "is_relative_to p base \<longleftrightarrow>
     p_root p = p_root base \<and> take (length (p_parts base)) (p_parts p) = p_parts base"
  by (simp add: is_relative_to_def relative_to_def)

lemma relative_to_Inl_iff:
  "relative_to p other = Inl e \<longleftrightarrow>
     e = ValueError \<and>
     \<not> (p_root p = p_root other \<and> take (length (p_parts other)) (p_parts p) = p_parts other)"
  by (auto simp add: relative_to_def)

lemma take_prefix_length_le:
  assumes "take (length xs) ys = xs"
  shows "length xs \<le> length ys"
proof -
  have "length (take (length xs) ys) = length xs"
    using assms by simp
  then show ?thesis by simp
qed

lemma take_butlast_prefix:
  assumes "take (length es) ps = es" and "length es < length ps"
  shows "take (length es) (butlast ps) = es"
  using assms by (simp add: take_butlast)

lemma regressive_relative_to_climbs:
  assumes "p_root from_p = p_root base" "take (length (p_parts base)) (p_parts from_p) = p_parts base"
    and "p_root to_p = p_root base" "take (length (p_parts base)) (p_parts to_p) = p_parts base"
  shows "\<exists>r k. regressive_relative_to from_p to_p = Inr r \<and> climbs from_p to_p = Some k \<and>
           k \<le> length (p_parts from_p) - length (p_parts base) \<and> p_root r = [] \<and>
           p_parts r = replicate k ''..'' @ drop (length (p_parts from_p) - k) (p_parts to_p) \<and>
           take (length (p_parts from_p) - k) (p_parts to_p) = take (length (p_parts from_p) - k) (p_parts from_p)"
  using assms
proof (induction from_p to_p rule: regressive_relative_to.induct)
  case (1 from_p to_p)
  show ?case
  proof (cases "relative_to to_p from_p")
    case (Inr result)
    then show ?thesis
      by (subst regressive_relative_to.simps, subst climbs.simps)
         (auto simp add: relative_to_def split: if_splits)
  next
    case (Inl e)
    then have ne: "\<not> (p_root to_p = p_root from_p \<and>
        take (length (p_parts from_p)) (p_parts to_p) = p_parts from_p)"
      by (simp add: relative_to_Inl_iff)
    have le: "length (p_parts base) \<le> length (p_parts from_p)"
      using "1.prems"(2) by (rule take_prefix_length_le)
    have lt: "length (p_parts base) < length (p_parts from_p)"
    proof (rule ccontr)
      assume "\<not> length (p_parts base) < length (p_parts from_p)"
      with le have eq: "length (p_parts base) = length (p_parts from_p)" by simp
      have "take (length (p_parts from_p)) (p_parts from_p) = p_parts base"
        using "1.prems"(2) unfolding eq .
      then have same: "p_parts from_p = p_parts base" by simp
      have "take (length (p_parts from_p)) (p_parts to_p) = p_parts from_p"
        using "1.prems"(4) unfolding same .
      moreover have "p_root to_p = p_root from_p"
        using "1.prems"(1,3) by simp
      ultimately show False using ne by blast
    qed
    then have nonempty: "p_parts from_p \<noteq> []" by auto
    have par: "p_parts (parent from_p) = butlast (p_parts from_p)"
      "p_root (parent from_p) = p_root from_p"
      using nonempty by (simp_all add: parent_def)
    have pre_parent: "take (length (p_parts base)) (p_parts (parent from_p)) = p_parts base"
      using "1.prems"(2) lt by (simp add: par take_butlast_prefix)
    have root_parent: "p_root (parent from_p) = p_root base"
      using "1.prems"(1) by (simp add: par)
    from "1.IH" [OF Inl nonempty root_parent pre_parent "1.prems"(3) "1.prems"(4)]
    obtain r k where r: "regressive_relative_to (parent from_p) to_p = Inr r"
      and k: "climbs (parent from_p) to_p = Some k"
      and kle0: "k \<le> length (p_parts (parent from_p)) - length (p_parts base)"
      and rroot: "p_root r = []"
      and parts0: "p_parts r = replicate k ''..'' @ drop (length (p_parts (parent from_p)) - k) (p_parts to_p)"
      and pre0: "take (length (p_parts (parent from_p)) - k) (p_parts to_p) =
                take (length (p_parts (parent from_p)) - k) (p_parts (parent from_p))"
      by blast
    note kle = kle0 [unfolded par]
    note parts = parts0 [unfolded par]
    note pre = pre0 [unfolded par]
    have kle': "Suc k \<le> length (p_parts from_p) - length (p_parts base)"
      using kle lt by simp
    have len: "length (butlast (p_parts from_p)) - k = length (p_parts from_p) - Suc k"
      by simp
    have pre': "take (length (p_parts from_p) - Suc k) (p_parts to_p) =
                take (length (p_parts from_p) - Suc k) (p_parts from_p)"
    proof -
      have "length (p_parts from_p) - Suc k < length (p_parts from_p)"
        using nonempty by (cases "p_parts from_p") simp_all
      then have "take (length (p_parts from_p) - Suc k) (butlast (p_parts from_p)) =
                 take (length (p_parts from_p) - Suc k) (p_parts from_p)"
        by (rule take_butlast)
      with pre show ?thesis unfolding len by simp
    qed
    have rr: "regressive_relative_to from_p to_p = Inr \<lparr>p_root = [], p_parts = ''..'' # p_parts r\<rparr>"
      by (subst regressive_relative_to.simps) (simp add: Inl nonempty r)
    have cc: "climbs from_p to_p = Some (Suc k)"
      by (subst climbs.simps) (simp add: Inl nonempty k)
    have pp: "''..'' # p_parts r =
        replicate (Suc k) ''..'' @ drop (length (p_parts from_p) - Suc k) (p_parts to_p)"
      using parts len by simp
    show ?thesis
      using rr cc kle' pp pre' by simp
  qed
qed


lemma normalize_parts_plain:
  "''..'' \<notin> set xs \<Longrightarrow>
     normalize_parts is_abs acc (xs @ ys) = normalize_parts is_abs (rev xs @ acc) ys"
  by (induction xs arbitrary: acc) auto

lemma normalize_parts_dotdots:
  "''..'' \<notin> set acc \<Longrightarrow> k \<le> length acc \<Longrightarrow>
     normalize_parts is_abs acc (replicate k ''..'' @ ys) = normalize_parts is_abs (drop k acc) ys"
proof (induction k arbitrary: acc)
  case 0
  show ?case by simp
next
  case (Suc k)
  then obtain a rest where acc: "acc = a # rest" by (cases acc) auto
  with Suc.prems have "a \<noteq> ''..''" "''..'' \<notin> set rest" "k \<le> length rest" by auto
  with Suc.IH [of rest] show ?case by (simp add: acc)
qed

text \<open>
  C9. For a source directory \<open>P\<close> and a target \<open>Q\<close> that are both relative to a common
  export root \<open>E\<close>, \<^verbatim>\<open>regressive_relative_to(P, Q)\<close> returns a path (it does not recurse
  for ever); the number \<open>k\<close> of recursive climbs is at most the depth of \<open>P\<close> below the root,
  hence at most the depth of \<open>P\<close>, and the result is \<open>k\<close> segments \<^verbatim>\<open>..\<close>, one per climb,
  followed by segments of \<open>Q\<close>.
\<close>

theorem regressive_relative_to_terminates_within_depth:
  assumes "is_relative_to P E" and "is_relative_to Q E"
  shows "\<exists>r k. regressive_relative_to P Q = Inr r \<and> climbs P Q = Some k \<and>
           k \<le> length (p_parts P) - length (p_parts E) \<and> k \<le> length (p_parts P) \<and>
           p_parts r = replicate k ''..'' @ drop (length (p_parts P) - k) (p_parts Q)"
proof -
  from assms have "p_root P = p_root E" "take (length (p_parts E)) (p_parts P) = p_parts E"
    "p_root Q = p_root E" "take (length (p_parts E)) (p_parts Q) = p_parts E"
    by (simp_all add: is_relative_to_iff)
  from regressive_relative_to_climbs [OF this]
  obtain r k where "regressive_relative_to P Q = Inr r" "climbs P Q = Some k"
    "k \<le> length (p_parts P) - length (p_parts E)"
    "p_parts r = replicate k ''..'' @ drop (length (p_parts P) - k) (p_parts Q)"
    by blast
  moreover from this have "k \<le> length (p_parts P)" by simp
  ultimately show ?thesis by blast
qed

theorem regressive_relative_to_terminates_witness:
  "is_relative_to (Path [EXPORT_DIR, ''a/b'']) (Path [EXPORT_DIR]) \<and>
   is_relative_to (Path [EXPORT_DIR, ''c/d.md'']) (Path [EXPORT_DIR]) \<and>
   (\<exists>r k. regressive_relative_to (Path [EXPORT_DIR, ''a/b'']) (Path [EXPORT_DIR, ''c/d.md'']) = Inr r \<and>
      climbs (Path [EXPORT_DIR, ''a/b'']) (Path [EXPORT_DIR, ''c/d.md'']) = Some k \<and> k \<le> 2)"
proof -
  have P: "Path [EXPORT_DIR, ''a/b''] = \<lparr>p_root = [], p_parts = [''exported'', ''a'', ''b'']\<rparr>"
    by (simp add: Path_def EXPORT_DIR_def splitroot_def)
  have Q: "Path [EXPORT_DIR, ''c/d.md''] = \<lparr>p_root = [], p_parts = [''exported'', ''c'', ''d.md'']\<rparr>"
    by (simp add: Path_def EXPORT_DIR_def splitroot_def)
  have E: "Path [EXPORT_DIR] = \<lparr>p_root = [], p_parts = [''exported'']\<rparr>"
    by (simp add: Path_def EXPORT_DIR_def splitroot_def)
  have h1: "is_relative_to (Path [EXPORT_DIR, ''a/b'']) (Path [EXPORT_DIR])"
    by (simp add: P E is_relative_to_def relative_to_def)
  have h2: "is_relative_to (Path [EXPORT_DIR, ''c/d.md'']) (Path [EXPORT_DIR])"
    by (simp add: Q E is_relative_to_def relative_to_def)
  from regressive_relative_to_terminates_within_depth [OF h1 h2]
  show ?thesis using h1 h2 by (auto simp add: P E)
qed

text \<open>
  C4. Round trip of the relative link resolver: for a source directory \<open>P\<close> and a target
  file \<open>Q\<close> under a common export root \<open>E\<close> (both relative to \<open>E\<close>, and written without
  \<^verbatim>\<open>..\<close> segments), \<^verbatim>\<open>regressive_relative_to(P, Q)\<close> returns a path \<open>r\<close>, and joining \<open>P\<close>
  with \<open>r\<close> and normalising the \<^verbatim>\<open>..\<close> segments away gives exactly \<open>Q\<close>.
\<close>

theorem regressive_relative_to_round_trip:
  assumes "is_under E P" and "is_under E Q"
  shows "\<exists>r. regressive_relative_to P Q = Inr r \<and> normalize_path (joinpath P r) = Q"
proof -
  from assms have roots: "p_root P = p_root E" "p_root Q = p_root E"
    and pre: "take (length (p_parts E)) (p_parts P) = p_parts E"
      "take (length (p_parts E)) (p_parts Q) = p_parts E"
    and clean: "''..'' \<notin> set (p_parts P)" "''..'' \<notin> set (p_parts Q)"
    by (simp_all add: is_under_def is_relative_to_iff)
  let ?n = "length (p_parts P)"
  from regressive_relative_to_climbs [OF roots(1) pre(1) roots(2) pre(2)]
  obtain r k where r: "regressive_relative_to P Q = Inr r"
    and k: "k \<le> ?n - length (p_parts E)" and rroot: "p_root r = []"
    and parts: "p_parts r = replicate k ''..'' @ drop (?n - k) (p_parts Q)"
    and common: "take (?n - k) (p_parts Q) = take (?n - k) (p_parts P)"
    by blast
  let ?ab = "p_root P \<noteq> []"
  have kn: "k \<le> ?n" using k by simp
  have "normalize_parts ?ab [] (p_parts P @ p_parts r) =
        normalize_parts ?ab (rev (p_parts P)) (replicate k ''..'' @ drop (?n - k) (p_parts Q))"
    using normalize_parts_plain [OF clean(1), of ?ab "[]" "p_parts r"] by (simp add: parts)
  also have "\<dots> = normalize_parts ?ab (drop k (rev (p_parts P))) (drop (?n - k) (p_parts Q))"
    using clean(1) kn by (intro normalize_parts_dotdots) simp_all
  also have "\<dots> = normalize_parts ?ab (rev (drop (?n - k) (p_parts Q)) @ drop k (rev (p_parts P))) []"
  proof -
    have "''..'' \<notin> set (drop (?n - k) (p_parts Q))"
      using clean(2) by (meson in_set_dropD)
    from normalize_parts_plain [OF this, of ?ab "drop k (rev (p_parts P))" "[]"]
    show ?thesis by simp
  qed
  also have "\<dots> = take (?n - k) (p_parts P) @ drop (?n - k) (p_parts Q)"
    by (simp add: drop_rev)
  also have "\<dots> = p_parts Q"
    unfolding common [symmetric] by (rule append_take_drop_id)
  finally have "normalize_parts ?ab [] (p_parts P @ p_parts r) = p_parts Q" .
  then have "normalize_path (joinpath P r) = Q"
    using roots rroot by (simp add: normalize_path_def joinpath_def)
  with r show ?thesis by blast
qed

theorem regressive_relative_to_round_trip_witness:
  "is_under (Path [EXPORT_DIR]) (Path [EXPORT_DIR, ''a/b'']) \<and>
   is_under (Path [EXPORT_DIR]) (Path [EXPORT_DIR, ''c/d.md'']) \<and>
   regressive_relative_to (Path [EXPORT_DIR, ''a/b'']) (Path [EXPORT_DIR, ''c/d.md'']) =
     Inr \<lparr>p_root = [], p_parts = [''..'', ''..'', ''c'', ''d.md'']\<rparr> \<and>
   (\<exists>r. regressive_relative_to (Path [EXPORT_DIR, ''a/b'']) (Path [EXPORT_DIR, ''c/d.md'']) = Inr r \<and>
      normalize_path (joinpath (Path [EXPORT_DIR, ''a/b'']) r) = Path [EXPORT_DIR, ''c/d.md''])"
proof -
  have P: "Path [EXPORT_DIR, ''a/b''] = \<lparr>p_root = [], p_parts = [''exported'', ''a'', ''b'']\<rparr>"
    by (simp add: Path_def EXPORT_DIR_def splitroot_def)
  have Q: "Path [EXPORT_DIR, ''c/d.md''] = \<lparr>p_root = [], p_parts = [''exported'', ''c'', ''d.md'']\<rparr>"
    by (simp add: Path_def EXPORT_DIR_def splitroot_def)
  have E: "Path [EXPORT_DIR] = \<lparr>p_root = [], p_parts = [''exported'']\<rparr>"
    by (simp add: Path_def EXPORT_DIR_def splitroot_def)
  have h1: "is_under (Path [EXPORT_DIR]) (Path [EXPORT_DIR, ''a/b''])"
    by (simp add: P E is_under_def is_relative_to_def relative_to_def)
  have h2: "is_under (Path [EXPORT_DIR]) (Path [EXPORT_DIR, ''c/d.md''])"
    by (simp add: Q E is_under_def is_relative_to_def relative_to_def)
  have r: "regressive_relative_to (Path [EXPORT_DIR, ''a/b'']) (Path [EXPORT_DIR, ''c/d.md'']) =
     Inr \<lparr>p_root = [], p_parts = [''..'', ''..'', ''c'', ''d.md'']\<rparr>"
    by (simp add: P Q regressive_relative_to.simps relative_to_def parent_def)
  from regressive_relative_to_round_trip [OF h1 h2] h1 h2 r
  show ?thesis by blast
qed

section \<open>Properties of the Slug Index\<close>

lemma slug_index_keeps:
  "(\<forall>d' \<in> set docs. slug d' = s \<longrightarrow> d' = d) \<Longrightarrow> map_of result s = Some d \<Longrightarrow>
     map_of (get_documents_by_slug_loop result docs) s = Some d"
  by (induction docs arbitrary: result) (auto simp add: update_conv')

lemma slug_index_stores:
  "d \<in> set docs \<Longrightarrow> (\<forall>d' \<in> set docs. slug d' = slug d \<longrightarrow> d' = d) \<Longrightarrow>
     map_of (get_documents_by_slug_loop result docs) (slug d) = Some d"
proof (induction docs arbitrary: result)
  case Nil
  then show ?case by simp
next
  case (Cons x xs)
  show ?case
  proof (cases "x = d")
    case True
    have "map_of (AList.update (slug d) d result) (slug d) = Some d"
      by (simp add: update_conv')
    with Cons.prems True show ?thesis
      by (simp add: slug_index_keeps)
  next
    case False
    with Cons.prems have "d \<in> set xs" "\<forall>d' \<in> set xs. slug d' = slug d \<longrightarrow> d' = d"
      by auto
    from Cons.IH [OF this] show ?thesis by simp
  qed
qed

text \<open>
  C2, as the code has it. The Slug Index stores each surviving Document under its slug as
  the record carries it; nothing is lowercased and no slash is added when the index is
  built. For a surviving Document \<open>d\<close> whose slug is already in normalized form (so that
  \<^verbatim>\<open>format_slug\<close> returns it unchanged) and is the slug of no other surviving Document,
  looking up the normalized form of the slug of \<open>d\<close> returns \<open>d\<close>.
\<close>

theorem slug_index_lookup_of_normalized_slug:
  assumes "d \<in> set docs"
    and "\<forall>d' \<in> set docs. slug d' = slug d \<longrightarrow> d' = d"
    and "format_slug (slug d) = Inr (slug d)"
  shows "\<exists>k. format_slug (slug d) = Inr k \<and> map_of (get_documents_by_slug docs) k = Some d"
  using assms by (simp add: get_documents_by_slug_def slug_index_stores)

theorem slug_index_lookup_witness:
  "format_slug ''guide/'' = Inr ''guide/'' \<and>
   map_of (get_documents_by_slug
     [\<lparr>doc_id = 1, version = 1, slug = ''guide/'', title = ''Guide'', content = ''text'',
        documentPHID = ''PHID-G'',
        path = \<lparr>p_root = [], p_parts = [''exported'', ''guide.md'']\<rparr>\<rparr>,
      \<lparr>doc_id = 2, version = 4, slug = ''faq/'', title = ''FAQ'', content = ''see [[guide]]'',
        documentPHID = ''PHID-F'',
        path = \<lparr>p_root = [], p_parts = [''exported'', ''faq.md'']\<rparr>\<rparr>]) ''guide/'' =
   Some \<lparr>doc_id = 1, version = 1, slug = ''guide/'', title = ''Guide'', content = ''text'',
        documentPHID = ''PHID-G'',
        path = \<lparr>p_root = [], p_parts = [''exported'', ''guide.md'']\<rparr>\<rparr>"
  (is "?F \<and> map_of (get_documents_by_slug ?docs) _ = Some ?d")
proof -
  have f: "format_slug (slug ?d) = Inr (slug ?d)"
    by code_simp
  have m: "?d \<in> set ?docs" by simp
  have u: "\<forall>d' \<in> set ?docs. slug d' = slug ?d \<longrightarrow> d' = ?d" by simp
  from slug_index_lookup_of_normalized_slug [OF m u f] f
  show ?thesis by simp
qed

text \<open>
  The statement of the specification fails for a surviving Document whose slug is not in normalized form:
  the index has it under \<^verbatim>\<open>Guide/\<close>, and the normalized key \<^verbatim>\<open>guide/\<close> is not found.
\<close>

theorem slug_index_normalized_key_counterexample:
  "format_slug ''Guide/'' = Inr ''guide/'' \<and>
   map_of (get_documents_by_slug
     [\<lparr>doc_id = 1, version = 1, slug = ''Guide/'', title = ''Guide'', content = ''text'',
        documentPHID = ''PHID-G'',
        path = \<lparr>p_root = [], p_parts = [''exported'', ''Guide.md'']\<rparr>\<rparr>]) ''guide/'' = None"
  by code_simp

section \<open>The rewriting loop and heading normalization\<close>

text \<open>
  C3. The specification asks that each replacement of the rewriting loop consume exactly
  the matched span, the character after the match included in what is preserved. The loop
  of the code goes on with \<^verbatim>\<open>text[m.end() + 1:]\<close> and loses that character: in
  \<^verbatim>\<open>see [[ Foo ]] now\<close> the blank after the token is gone, and in \<^verbatim>\<open>= Top =body\<close> the
  letter after the heading.
\<close>

theorem custom_re_sub_drops_character_after_match:
  "custom_re_sub INTERNAL_LINK_REGEX (replace_a_link_by_slug self []) ''see [[ Foo ]] now'' =
     Some (Inr ''see [foo/](foo/)now'') \<and>
   custom_re_sub HEADER_REGEX replace_a_header ''= Top =body'' =
     Some (Inr (''# Top '' @ [CHR 0x0A] @ ''ody''))"
  by code_simp

text \<open>
  C6. Heading normalization on the two lines named by the specification, which expects
  \<^verbatim>\<open>## Section\<close> and \<^verbatim>\<open># Top\<close>. The number of \<^verbatim>\<open>#\<close> is the length of the opening run, but
  the greedy group of the heading text keeps all but the last \<^verbatim>\<open>=\<close> of the closing run and
  the blank before it. The replacement ends with a newline, which stands for the one the
  loop takes after the heading line.
\<close>

theorem clean_headers_leaves_delimiter_residue:
  "clean_headers (self\<lparr>content := ''== Section ==''\<rparr>) =
     Some (Inr (self\<lparr>content := ''## Section ='' @ [CHR 0x0A]\<rparr>)) \<and>
   clean_headers (self\<lparr>content := ''= Top =''\<rparr>) =
     Some (Inr (self\<lparr>content := ''# Top '' @ [CHR 0x0A]\<rparr>)) \<and>
   clean_headers (self\<lparr>content := ''== Section =='' @ [CHR 0x0A] @ ''body''\<rparr>) =
     Some (Inr (self\<lparr>content := ''## Section ='' @ [CHR 0x0A] @ ''body''\<rparr>))"
proof -
  have "custom_re_sub HEADER_REGEX replace_a_header ''== Section =='' =
          Some (Inr (''## Section ='' @ [CHR 0x0A]))"
    by code_simp
  moreover have "custom_re_sub HEADER_REGEX replace_a_header ''= Top ='' =
          Some (Inr (''# Top '' @ [CHR 0x0A]))"
    by code_simp
  moreover have "custom_re_sub HEADER_REGEX replace_a_header
          (''== Section =='' @ [CHR 0x0A] @ ''body'') =
          Some (Inr (''## Section ='' @ [CHR 0x0A] @ ''body''))"
    by code_simp
  ultimately show ?thesis
    by (simp add: clean_headers_def)
qed

section \<open>Path resolution in the executed pipeline\<close>

text \<open>
  C7. The specification asks that the root document resolve to \<^verbatim>\<open>README.md\<close> under the
  export root whatever the collision correction sees. In a run whose only row is the root
  document, on a file system where the export directory does not exist yet,
  \<^verbatim>\<open>correct_path\<close> finds no directory and gives the root document the path
  \<^verbatim>\<open>exported.md\<close>; with a second document the export directory exists by then and the
  root document gets \<^verbatim>\<open>exported/README.md\<close>.
\<close>

theorem root_document_path_depends_on_correction:
  "main_paths \<lparr>fs_dirs = {}, fs_files = {}\<rparr> [(1, 1, ''/'', ''Home'', ''hello'', ''PHID-1'')] =
     Inr [\<lparr>doc_id = 1, version = 1, slug = ''/'', title = ''Home'', content = ''hello'',
            documentPHID = ''PHID-1'', path = \<lparr>p_root = [], p_parts = [''exported.md'']\<rparr>\<rparr>] \<and>
   main_paths \<lparr>fs_dirs = {}, fs_files = {}\<rparr>
     [(1, 1, ''/'', ''Home'', ''hello'', ''PHID-1''), (2, 1, ''a/'', ''A'', ''text'', ''PHID-2'')] =
     Inr [\<lparr>doc_id = 1, version = 1, slug = ''/'', title = ''Home'', content = ''hello'',
            documentPHID = ''PHID-1'',
            path = \<lparr>p_root = [], p_parts = [''exported'', ''README.md'']\<rparr>\<rparr>,
          \<lparr>doc_id = 2, version = 1, slug = ''a/'', title = ''A'', content = ''text'',
            documentPHID = ''PHID-2'',
            path = \<lparr>p_root = [], p_parts = [''exported'', ''a.md'']\<rparr>\<rparr>]"
  by code_simp

text \<open>
  C8. The specification asks that a slug other than \<^verbatim>\<open>/\<close> without a non-empty segment
  make path resolution fail. For the empty slug and for the slug \<^verbatim>\<open>//\<close> the executed
  pipeline raises nothing and gives the documents the paths \<^verbatim>\<open>exported.md\<close> and
  \<^verbatim>\<open>//README.md\<close>.
\<close>

theorem malformed_slug_gets_a_path_silently:
  "main_paths \<lparr>fs_dirs = {}, fs_files = {}\<rparr> [(7, 1, [], ''Lost'', ''text'', ''PHID-7'')] =
     Inr [\<lparr>doc_id = 7, version = 1, slug = [], title = ''Lost'', content = ''text'',
            documentPHID = ''PHID-7'', path = \<lparr>p_root = [], p_parts = [''exported.md'']\<rparr>\<rparr>] \<and>
   main_paths \<lparr>fs_dirs = {}, fs_files = {}\<rparr> [(8, 1, ''//'', ''Lost'', ''text'', ''PHID-8'')] =
     Inr [\<lparr>doc_id = 8, version = 1, slug = ''//'', title = ''Lost'', content = ''text'',
            documentPHID = ''PHID-8'', path = \<lparr>p_root = ''//'', p_parts = [''README.md'']\<rparr>\<rparr>]"
  by code_simp

section \<open>Properties of the link patterns\<close>

lemma re_match_extends:
  "re_match ts s i bs = Some (e, bs') \<Longrightarrow> \<exists>new. bs' = bs @ new"
  by (induction ts s i bs rule: re_match.induct) (auto split: if_splits option.splits)

lemma star_one_group:
  "re_match (Star c # One c' # GClose # rest) s j bs = Some (e, bs') \<Longrightarrow> j + length s = n \<Longrightarrow>
     \<exists>b new. bs' = bs @ b # new \<and> j < b \<and> b \<le> n"
proof (induction s arbitrary: j)
  case Nil
  then show ?case by simp
next
  case (Cons x xs)
  show ?case
  proof (cases "cls_matches c x \<and> re_match (Star c # One c' # GClose # rest) xs (Suc j) bs \<noteq> None")
    case True
    with Cons.prems(1) have "re_match (Star c # One c' # GClose # rest) xs (Suc j) bs = Some (e, bs')"
      by auto
    moreover have "Suc j + length xs = n" using Cons.prems(2) by simp
    ultimately obtain b new where "bs' = bs @ b # new" "Suc j < b" "b \<le> n"
      using Cons.IH by blast
    then show ?thesis by auto
  next
    case False
    with Cons.prems(1) have "re_match (One c' # GClose # rest) (x # xs) j bs = Some (e, bs')"
      by (auto split: if_splits option.splits)
    then have "re_match rest xs (Suc j) (bs @ [Suc j]) = Some (e, bs')"
      by (simp split: if_splits)
    from re_match_extends [OF this] obtain new where "bs' = bs @ Suc j # new" by auto
    with Cons.prems(2) show ?thesis by auto
  qed
qed

lemma lift_Star:
  assumes step: "\<And>s j. j + length s = n \<Longrightarrow> re_match ts s j bs = Some r \<Longrightarrow> Q"
  shows "j + length s = n \<Longrightarrow> re_match (Star c # ts) s j bs = Some r \<Longrightarrow> Q"
proof (induction s arbitrary: j)
  case Nil
  then show ?case using step [of j "[]"] by simp
next
  case (Cons x xs)
  show ?case
  proof (cases "cls_matches c x \<and> re_match (Star c # ts) xs (Suc j) bs \<noteq> None")
    case True
    with Cons.prems(2) have "re_match (Star c # ts) xs (Suc j) bs = Some r" by auto
    moreover have "Suc j + length xs = n" using Cons.prems(1) by simp
    ultimately show ?thesis using Cons.IH by blast
  next
    case False
    with Cons.prems(2) have "re_match ts (x # xs) j bs = Some r"
      by (auto split: if_splits option.splits)
    with Cons.prems(1) show ?thesis using step by blast
  qed
qed

lemma lift_One:
  assumes step: "\<And>s j. j + length s = n \<Longrightarrow> re_match ts s j bs = Some r \<Longrightarrow> Q"
  shows "j + length s = n \<Longrightarrow> re_match (One c # ts) s j bs = Some r \<Longrightarrow> Q"
proof (cases s)
  case Nil
  assume "re_match (One c # ts) s j bs = Some r"
  with Nil show ?thesis by simp
next
  case (Cons x xs)
  assume "j + length s = n" "re_match (One c # ts) s j bs = Some r"
  with Cons have "Suc j + length xs = n" "re_match ts xs (Suc j) bs = Some r"
    by (simp_all split: if_splits)
  then show ?thesis by (rule step)
qed

lemma group_after_prefix:
  assumes "re_match (One a1 # One a2 # Star a3 # GOpen # Star c # One c' # GClose # rest) s j [] =
             Some (e, bs')"
    and "j + length s = n"
  shows "\<exists>a b new. bs' = a # b # new \<and> a < b \<and> b \<le> n"
proof -
  have inner: "\<exists>a b new. bs' = a # b # new \<and> a < b \<and> b \<le> n"
    if "j' + length s' = n"
      and "re_match (GOpen # Star c # One c' # GClose # rest) s' j' [] = Some (e, bs')" for s' j'
  proof -
    from that(2) have "re_match (Star c # One c' # GClose # rest) s' j' [j'] = Some (e, bs')"
      by simp
    from star_one_group [OF this that(1)] show ?thesis by auto
  qed
  show ?thesis
    by (rule lift_One [OF _ assms(2) assms(1)], rule lift_One, rule lift_Star, rule inner)
qed

lemma re_search_from_match:
  "re_search_from regex text s i = Some m \<Longrightarrow> i + length s = n \<Longrightarrow>
     \<exists>s' j e bs'. j + length s' = n \<and> re_match regex s' j [] = Some (e, bs') \<and>
        m_groups m = groups_of text bs'"
proof (induction s arbitrary: i)
  case Nil
  from Nil(1) obtain e bs' where "re_match regex [] i [] = Some (e, bs')"
    and "m_groups m = groups_of text bs'"
    by (subst (asm) re_search_from.simps) (auto split: option.splits)
  with Nil(2) show ?case by blast
next
  case (Cons x xs)
  show ?case
  proof (cases "re_match regex (x # xs) i []")
    case None
    with Cons.prems(1) have "re_search_from regex text xs (Suc i) = Some m"
      by (subst (asm) re_search_from.simps) simp
    moreover have "Suc i + length xs = n" using Cons.prems(2) by simp
    ultimately show ?thesis by (rule Cons.IH)
  next
    case (Some r)
    obtain e bs' where r: "r = (e, bs')" by (cases r)
    with Some Cons.prems(1) have "m_groups m = groups_of text bs'"
      by (subst (asm) re_search_from.simps) auto
    with Some r Cons.prems(2) show ?thesis by blast
  qed
qed

lemma group_1_nonempty:
  assumes "re_search (One a1 # One a2 # Star a3 # GOpen # Star c # One c' # GClose # rest) text = Some m"
  shows "m_group m 1 \<noteq> []"
proof -
  from assms have "re_search_from
      (One a1 # One a2 # Star a3 # GOpen # Star c # One c' # GClose # rest) text text 0 = Some m"
    by (simp add: re_search_def)
  from re_search_from_match [OF this, of "length text"]
  obtain s' j e bs' where len: "j + length s' = length text"
    and mt: "re_match (One a1 # One a2 # Star a3 # GOpen # Star c # One c' # GClose # rest) s' j [] =
               Some (e, bs')"
    and g: "m_groups m = groups_of text bs'"
    by auto
  from group_after_prefix [OF mt len]
  obtain a b new where "bs' = a # b # new" "a < b" "b \<le> length text" by blast
  with g show ?thesis by (simp add: m_group_def)
qed

lemma format_slug_nonempty: "url \<noteq> [] \<Longrightarrow> \<exists>k. format_slug url = Inr k"
  by (simp add: format_slug_def)

lemma link_url_nonempty: "re_search LINK_REGEX text = Some m \<Longrightarrow> m_group m 1 \<noteq> []"
  unfolding LINK_REGEX_def by (rule group_1_nonempty)

lemma internal_slug_nonempty: "re_search INTERNAL_LINK_REGEX text = Some m \<Longrightarrow> m_group m 1 \<noteq> []"
  unfolding INTERNAL_LINK_REGEX_def by (rule group_1_nonempty)


subsection \<open>The errors of the link replacers\<close>

lemma regressive_relative_to_error:
  "regressive_relative_to from_p to_p = Inl e \<Longrightarrow> e = RecursionError"
proof (induction from_p to_p rule: regressive_relative_to.induct)
  case (1 from_p to_p)
  from "1.prems" "1.IH" show ?case
    by (subst (asm) regressive_relative_to.simps)
       (auto split: sum.splits if_splits)
qed

lemma render_link_error: "render_link from_p to_p text = Inl e \<Longrightarrow> e = RecursionError"
  by (auto simp add: render_link_def split: sum.splits dest: regressive_relative_to_error)

lemma replace_a_raw_link_no_IndexError:
  "m_group m 1 \<noteq> [] \<Longrightarrow> replace_a_raw_link self docs_by_slug m \<noteq> Inl IndexError"
  by (auto simp add: replace_a_raw_link_def format_slug_def Let_def
           split: option.splits dest: render_link_error)

lemma replace_a_link_by_slug_no_IndexError:
  "m_group m 1 \<noteq> [] \<Longrightarrow> replace_a_link_by_slug self docs_by_slug m \<noteq> Inl IndexError"
  by (auto simp add: replace_a_link_by_slug_def format_slug_def Let_def
           split: option.splits dest: render_link_error)

lemma re_sub_no_IndexError:
  "\<forall>body m. re_search regex body = Some m \<longrightarrow> replacer m \<noteq> Inl IndexError \<Longrightarrow>
     re_sub regex replacer body \<noteq> Inl IndexError"
proof (induction regex replacer body rule: re_sub.induct)
  case (1 regex replacer body)
  show ?case
  proof (cases "re_search regex body")
    case None
    then show ?thesis by (subst re_sub.simps) simp
  next
    case (Some m)
    with "1.prems" have safe_m: "replacer m \<noteq> Inl IndexError" by blast
    show ?thesis
    proof (cases "m_end m \<le> m_start m \<or> length body < m_end m")
      case True
      with Some show ?thesis by (subst re_sub.simps) simp
    next
      case False
      show ?thesis
      proof (cases "replacer m")
        case (Inl e)
        with Some False safe_m show ?thesis by (subst re_sub.simps) auto
      next
        case (Inr r)
        from "1.IH" [OF Some False Inr "1.prems"]
        have "re_sub regex replacer (drop (m_end m) body) \<noteq> Inl IndexError" .
        with Some False Inr show ?thesis
          by (subst re_sub.simps) (auto split: sum.splits)
      qed
    qed
  qed
qed

lemma custom_re_sub_no_IndexError:
  assumes run: "custom_re_sub regex replacer body = Some y"
  shows "(\<forall>body m. re_search regex body = Some m \<longrightarrow> replacer m \<noteq> Inl IndexError) \<longrightarrow>
           y \<noteq> Inl IndexError"
proof (rule custom_re_sub.raw_induct
    [where P = "\<lambda>regex replacer body y.
       (\<forall>body m. re_search regex body = Some m \<longrightarrow> replacer m \<noteq> Inl IndexError) \<longrightarrow>
       y \<noteq> Inl IndexError", OF _ run])
  fix loop :: "tok list \<Rightarrow> (match \<Rightarrow> error + string) \<Rightarrow> string \<Rightarrow> (error + string) option"
  fix regex replacer body y
  assume IH: "\<And>regex replacer body y. loop regex replacer body = Some y \<Longrightarrow>
       (\<forall>body m. re_search regex body = Some m \<longrightarrow> replacer m \<noteq> Inl IndexError) \<longrightarrow>
       y \<noteq> Inl IndexError"
    and eq: "(case re_search regex body of
               None \<Rightarrow> Some (Inr body)
             | Some m \<Rightarrow>
                 (case replacer m of
                    Inl e \<Rightarrow> Some (Inl e)
                  | Inr r \<Rightarrow> loop regex replacer
                      (take (m_start m) body @ r @ drop (m_end m + 1) body))) = Some y"
  show "(\<forall>body m. re_search regex body = Some m \<longrightarrow> replacer m \<noteq> Inl IndexError) \<longrightarrow>
       y \<noteq> Inl IndexError"
  proof
    assume safe: "\<forall>body m. re_search regex body = Some m \<longrightarrow> replacer m \<noteq> Inl IndexError"
    show "y \<noteq> Inl IndexError"
    proof (cases "re_search regex body")
      case None
      with eq show ?thesis by auto
    next
      case (Some m)
      with safe have safe_m: "replacer m \<noteq> Inl IndexError" by blast
      show ?thesis
      proof (cases "replacer m")
        case (Inl e)
        with Some eq safe_m show ?thesis by auto
      next
        case (Inr r)
        with Some eq
        have "loop regex replacer (take (m_start m) body @ r @ drop (m_end m + 1) body) = Some y"
          by simp
        from IH [OF this] safe show ?thesis by blast
      qed
    qed
  qed
qed

lemma clean_links_no_IndexError:
  "clean_links self docs_by_slug \<noteq> Some (Inl IndexError)"
proof -
  have a: "re_sub LINK_REGEX (replace_a_raw_link self docs_by_slug) (content self) \<noteq> Inl IndexError"
    by (rule re_sub_no_IndexError, intro allI impI)
       (rule replace_a_raw_link_no_IndexError [OF link_url_nonempty])
  have b: "custom_re_sub INTERNAL_LINK_REGEX (replace_a_link_by_slug self docs_by_slug) c
             \<noteq> Some (Inl IndexError)" for c
  proof
    assume "custom_re_sub INTERNAL_LINK_REGEX (replace_a_link_by_slug self docs_by_slug) c
             = Some (Inl IndexError)"
    from custom_re_sub_no_IndexError [OF this]
      replace_a_link_by_slug_no_IndexError [OF internal_slug_nonempty]
    show False by blast
  qed
  show ?thesis
    using a b by (auto simp add: clean_links_def split: sum.splits option.splits)
qed

lemma clean_headers_no_IndexError:
  "clean_headers self \<noteq> Some (Inl IndexError)"
proof -
  have "custom_re_sub HEADER_REGEX replace_a_header c \<noteq> Some (Inl IndexError)" for c
  proof
    assume "custom_re_sub HEADER_REGEX replace_a_header c = Some (Inl IndexError)"
    from custom_re_sub_no_IndexError [OF this]
    show False by (simp add: replace_a_header_def)
  qed
  then show ?thesis
    by (auto simp add: clean_headers_def split: sum.splits option.splits)
qed

subsection \<open>The substitution of explicit links never meets an empty match\<close>

lemma re_match_end:
  "re_match ts s i bs = Some (e, bs') \<Longrightarrow> i \<le> e \<and> e \<le> i + length s"
  by (induction ts s i bs rule: re_match.induct) (auto split: if_splits option.splits)

lemma re_match_One_end:
  "re_match (One c # ts) s i bs = Some (e, bs') \<Longrightarrow> i < e \<and> e \<le> i + length s"
  by (cases s) (auto split: if_splits dest: re_match_end)

lemma re_search_from_span:
  "re_search_from regex text s i = Some m \<Longrightarrow> i + length s = n \<Longrightarrow>
     \<exists>s' bs'. m_start m + length s' = n \<and>
        re_match regex s' (m_start m) [] = Some (m_end m, bs')"
proof (induction s arbitrary: i)
  case Nil
  from Nil(1) obtain e bs' where "re_match regex [] i [] = Some (e, bs')"
    and "m_start m = i" "m_end m = e"
    by (subst (asm) re_search_from.simps) (auto split: option.splits)
  with Nil(2) show ?case by auto
next
  case (Cons x xs)
  show ?case
  proof (cases "re_match regex (x # xs) i []")
    case None
    with Cons.prems(1) have "re_search_from regex text xs (Suc i) = Some m"
      by (subst (asm) re_search_from.simps) simp
    moreover have "Suc i + length xs = n" using Cons.prems(2) by simp
    ultimately show ?thesis by (rule Cons.IH)
  next
    case (Some r)
    obtain e bs' where r: "r = (e, bs')" by (cases r)
    with Some Cons.prems(1) have "m_start m = i" "m_end m = e"
      by (subst (asm) re_search_from.simps, auto)+
    with Some r Cons.prems(2)
    have "m_start m + length (x # xs) = n \<and>
          re_match regex (x # xs) (m_start m) [] = Some (m_end m, bs')"
      by simp
    then show ?thesis by blast
  qed
qed

lemma LINK_REGEX_match_span:
  assumes "re_search LINK_REGEX body = Some m"
  shows "m_start m < m_end m \<and> m_end m \<le> length body"
proof -
  from assms have "re_search_from LINK_REGEX body body 0 = Some m"
    by (simp add: re_search_def)
  from re_search_from_span [OF this, of "length body"]
  obtain s' bs' where "m_start m + length s' = length body"
    and "re_match LINK_REGEX s' (m_start m) [] = Some (m_end m, bs')"
    by auto
  then show ?thesis
    unfolding LINK_REGEX_def by (auto dest: re_match_One_end)
qed

lemma re_sub_error_source:
  "re_sub regex replacer body = Inl e \<Longrightarrow>
     \<exists>body' m. re_search regex body' = Some m \<and>
       (replacer m = Inl e \<or>
        e = EmptyMatch \<and> (m_end m \<le> m_start m \<or> length body' < m_end m))"
proof (induction regex replacer body rule: re_sub.induct)
  case (1 regex replacer body)
  show ?case
  proof (cases "re_search regex body")
    case None
    with "1.prems" show ?thesis by (subst (asm) re_sub.simps) simp
  next
    case (Some m)
    show ?thesis
    proof (cases "m_end m \<le> m_start m \<or> length body < m_end m")
      case True
      with Some "1.prems" have "e = EmptyMatch"
        by (subst (asm) re_sub.simps) auto
      with Some True show ?thesis by blast
    next
      case False
      show ?thesis
      proof (cases "replacer m")
        case (Inl e')
        with Some False "1.prems" have "e' = e"
          by (subst (asm) re_sub.simps) auto
        with Some Inl show ?thesis by blast
      next
        case (Inr r)
        with Some False "1.prems" have "re_sub regex replacer (drop (m_end m) body) = Inl e"
          by (subst (asm) re_sub.simps) (auto split: sum.splits)
        from "1.IH" [OF Some False Inr this] show ?thesis .
      qed
    qed
  qed
qed

lemma replace_a_raw_link_errors:
  "replace_a_raw_link self docs_by_slug m = Inl e \<Longrightarrow> e = IndexError \<or> e = RecursionError"
  by (auto simp add: replace_a_raw_link_def format_slug_def Let_def
           split: option.splits if_splits dest: render_link_error)

lemma re_sub_LINK_REGEX_no_EmptyMatch:
  "re_sub LINK_REGEX (replace_a_raw_link self docs_by_slug) body \<noteq> Inl EmptyMatch"
proof
  assume "re_sub LINK_REGEX (replace_a_raw_link self docs_by_slug) body = Inl EmptyMatch"
  from re_sub_error_source [OF this]
  obtain body' m where m: "re_search LINK_REGEX body' = Some m"
    and "replace_a_raw_link self docs_by_slug m = Inl EmptyMatch \<or>
         m_end m \<le> m_start m \<or> length body' < m_end m"
    by blast
  with LINK_REGEX_match_span [OF m] replace_a_raw_link_errors [of self docs_by_slug m EmptyMatch]
  show False by auto
qed

section \<open>Link rewriting\<close>

text \<open>
  C10, as the code has it. On every text, a match of \<^verbatim>\<open>LINK_REGEX\<close> or of
  \<^verbatim>\<open>INTERNAL_LINK_REGEX\<close> captures a non-empty first group (the url, the slug), so every
  string that the link rewriters pass to \<^verbatim>\<open>format_slug\<close> is non-empty: \<^verbatim>\<open>format_slug\<close>
  returns a value on it, while on the empty string it raises \<^verbatim>\<open>IndexError\<close>. Hence neither
  \<^verbatim>\<open>clean_links\<close> nor \<^verbatim>\<open>clean_content\<close> ends with an \<^verbatim>\<open>IndexError\<close>, whatever the
  content. This is the only fault excluded: a pass may still end with another error or not
  end at all.
\<close>

theorem format_slug_never_faults_in_rewriting:
  "(\<forall>m. re_search LINK_REGEX text = Some m \<longrightarrow>
        m_group m 1 \<noteq> [] \<and> (\<exists>k. format_slug (m_group m 1) = Inr k)) \<and>
   (\<forall>m. re_search INTERNAL_LINK_REGEX text = Some m \<longrightarrow>
        m_group m 1 \<noteq> [] \<and> (\<exists>k. format_slug (m_group m 1) = Inr k)) \<and>
   format_slug [] = Inl IndexError \<and>
   clean_links self docs_by_slug \<noteq> Some (Inl IndexError) \<and>
   clean_content self docs_by_slug \<noteq> Some (Inl IndexError)"
proof (intro conjI allI impI)
  fix m assume "re_search LINK_REGEX text = Some m"
  then show "m_group m 1 \<noteq> []" by (rule link_url_nonempty)
  then show "\<exists>k. format_slug (m_group m 1) = Inr k" by (rule format_slug_nonempty)
next
  fix m assume "re_search INTERNAL_LINK_REGEX text = Some m"
  then show "m_group m 1 \<noteq> []" by (rule internal_slug_nonempty)
  then show "\<exists>k. format_slug (m_group m 1) = Inr k" by (rule format_slug_nonempty)
next
  show "format_slug [] = Inl IndexError" by (simp add: format_slug_def)
  show "clean_links self docs_by_slug \<noteq> Some (Inl IndexError)"
    by (rule clean_links_no_IndexError)
  show "clean_content self docs_by_slug \<noteq> Some (Inl IndexError)"
    using clean_links_no_IndexError clean_headers_no_IndexError
    by (auto simp add: clean_content_def split: sum.splits option.splits)
qed

theorem format_slug_never_faults_witness:
  "re_search LINK_REGEX ''[[ Guide | the guide ]]'' =
     Some \<lparr>m_start = 0, m_end = 23, m_groups = [''Guide'', ''the guide'']\<rparr> \<and>
   re_search INTERNAL_LINK_REGEX ''see [[ Guide ]]'' =
     Some \<lparr>m_start = 4, m_end = 15, m_groups = [''Guide'']\<rparr> \<and>
   (\<exists>k. format_slug (m_group \<lparr>m_start = 0, m_end = 23, m_groups = [''Guide'', ''the guide'']\<rparr> 1) = Inr k) \<and>
   (\<exists>k. format_slug (m_group \<lparr>m_start = 4, m_end = 15, m_groups = [''Guide'']\<rparr> 1) = Inr k)"
proof -
  have s1: "re_search LINK_REGEX ''[[ Guide | the guide ]]'' =
     Some \<lparr>m_start = 0, m_end = 23, m_groups = [''Guide'', ''the guide'']\<rparr>"
    by code_simp
  have s2: "re_search INTERNAL_LINK_REGEX ''see [[ Guide ]]'' =
     Some \<lparr>m_start = 4, m_end = 15, m_groups = [''Guide'']\<rparr>"
    by code_simp
  from format_slug_never_faults_in_rewriting [of "''[[ Guide | the guide ]]''"] s1
    format_slug_never_faults_in_rewriting [of "''see [[ Guide ]]''"] s2
  show ?thesis by blast
qed

text \<open>
  The rewriting passes are not total. A document whose slug starts with a slash gets an
  absolute path; a link to it from a document under the export directory sends
  \<^verbatim>\<open>regressive_relative_to\<close> up to the directory without segments, which is its own
  parent, and the recursion never reaches a common ancestor: \<^verbatim>\<open>clean_links\<close> ends with a
  \<^verbatim>\<open>RecursionError\<close>, and so does the run.
\<close>

theorem rewriting_not_total_counterexample:
  "clean_links
     \<lparr>doc_id = 1, version = 1, slug = ''a/'', title = ''A'', content = ''see [[/abs]]'',
        documentPHID = ''PHID-1'', path = \<lparr>p_root = [], p_parts = [''exported'', ''a.md'']\<rparr>\<rparr>
     [(''/abs/'',
       \<lparr>doc_id = 2, version = 1, slug = ''/abs/'', title = ''Abs'', content = ''text'',
          documentPHID = ''PHID-2'', path = \<lparr>p_root = ''/'', p_parts = [''abs.md'']\<rparr>\<rparr>)] =
     Some (Inl RecursionError) \<and>
   main_contents \<lparr>fs_dirs = {}, fs_files = {}\<rparr>
     [(1, 1, ''a/'', ''A'', ''see [[/abs]]'', ''PHID-1''),
      (2, 1, ''/abs/'', ''Abs'', ''text'', ''PHID-2'')] = Some (Inl RecursionError)"
  by code_simp

section \<open>A content with one bare slug token\<close>


























end
